theory Spec2Isabelle
  imports Main "HOL-Library.Word" "HOL-Library.Sublist"
begin

section \<open>Strings of the program\<close>

text \<open>
  A JavaScript string is a sequence of UTF-16 code units. The regular expression of the
  program has no \<^verbatim>\<open>u\<close> flag, so it reads the prompt one code unit at a time.
  \<open>js\<close> embeds an ASCII literal: each character is the code unit of the same number.
\<close>

type_synonym code_unit = "16 word"
type_synonym jsstring = "code_unit list"

definition js :: "string \<Rightarrow> jsstring" where
  "js s = map of_char s"

text \<open>
  The class \<^verbatim>\<open>\s\<close> of ECMAScript: the WhiteSpace code points (TAB, VT, FF, U+FEFF and
  the category Zs: SP, NBSP, U+1680, U+2000 to U+200A, U+202F, U+205F, U+3000) and the
  LineTerminator code points (LF, CR, U+2028, U+2029).
\<close>

definition is_space :: "code_unit \<Rightarrow> bool" where
  "is_space c \<longleftrightarrow>
     c = 0x0009 \<or> c = 0x000A \<or> c = 0x000B \<or> c = 0x000C \<or> c = 0x000D \<or> c = 0x0020 \<or>
     c = 0x00A0 \<or> c = 0x1680 \<or> (0x2000 \<le> c \<and> c \<le> 0x200A) \<or> c = 0x2028 \<or>
     c = 0x2029 \<or> c = 0x202F \<or> c = 0x205F \<or> c = 0x3000 \<or> c = 0xFEFF"

section \<open>The regular expression and the global match\<close>

text \<open>
  \<^verbatim>\<open>const URL_REGEX = /https?:\/\/[^\s]+/g;\<close>

  The pattern is a sequence of three kinds of atom: a literal code unit, an optional
  literal (\<^verbatim>\<open>s?\<close>, greedy) and the greedy repetition \<^verbatim>\<open>[^\s]+\<close>. The matcher is
  the backtracking matcher of ECMAScript restricted to these atoms: it returns the
  length of the first match it finds at the start of the input.
\<close>

datatype atom = Lit code_unit | Opt code_unit | PlusNonSpace

definition URL_REGEX :: "atom list" where
  "URL_REGEX =
     [Lit 0x68, Lit 0x74, Lit 0x74, Lit 0x70, Opt 0x73, Lit 0x3A, Lit 0x2F, Lit 0x2F,
      PlusNonSpace]"

text \<open>
  \<open>backtrack k s n\<close>: the greedy \<^verbatim>\<open>+\<close> has \<open>n\<close> code units available; it tries the
  continuation \<open>k\<close> after taking \<open>n\<close> of them, then \<open>n - 1\<close>, down to one.
\<close>

fun backtrack :: "(jsstring \<Rightarrow> nat option) \<Rightarrow> jsstring \<Rightarrow> nat \<Rightarrow> nat option" where
  "backtrack k s 0 = None"
| "backtrack k s (Suc n) =
     (case k (drop (Suc n) s) of
        Some m \<Rightarrow> Some (Suc n + m)
      | None \<Rightarrow> backtrack k s n)"

primrec match_prefix :: "atom list \<Rightarrow> jsstring \<Rightarrow> nat option" where
  "match_prefix [] s = Some 0"
| "match_prefix (a # as) s =
     (case a of
        Lit c \<Rightarrow>
          (case s of
             [] \<Rightarrow> None
           | x # xs \<Rightarrow> if x = c then map_option Suc (match_prefix as xs) else None)
      | Opt c \<Rightarrow>
          (case (case s of
                   [] \<Rightarrow> None
                 | x # xs \<Rightarrow> if x = c then map_option Suc (match_prefix as xs) else None) of
             Some n \<Rightarrow> Some n
           | None \<Rightarrow> match_prefix as s)
      | PlusNonSpace \<Rightarrow>
          backtrack (match_prefix as) s (length (takeWhile (\<lambda>x. \<not> is_space x) s)))"

text \<open>
  The loop of \<^verbatim>\<open>String.prototype.match\<close> with a global pattern: search from the last
  index for the first position with a match, record the matched text, go on after it
  (one code unit further when the match is empty).
\<close>

function match_all :: "atom list \<Rightarrow> jsstring \<Rightarrow> jsstring list" where
  "match_all r s =
     (case match_prefix r s of
        None \<Rightarrow> (case s of [] \<Rightarrow> [] | c # cs \<Rightarrow> match_all r cs)
      | Some n \<Rightarrow> take n s # (case s of [] \<Rightarrow> [] | c # cs \<Rightarrow> match_all r (drop (n - 1) cs)))"
  by pat_completeness auto
termination
  by (relation "measure (\<lambda>(r, s). length s)") auto

declare match_all.simps [simp del]

text \<open>\<^verbatim>\<open>match\<close> returns \<^verbatim>\<open>null\<close>, not an empty array, when nothing matches.\<close>

definition String_match :: "jsstring \<Rightarrow> atom list \<Rightarrow> jsstring list option" where
  "String_match s r = (let ms = match_all r s in if ms = [] then None else Some ms)"

text \<open>\<^verbatim>\<open>prompt.match(URL_REGEX) ?? []\<close>\<close>

definition extract_urls :: "jsstring \<Rightarrow> jsstring list" where
  "extract_urls prompt = (case String_match prompt URL_REGEX of None \<Rightarrow> [] | Some ms \<Rightarrow> ms)"

section \<open>The providers and the calls made to them\<close>

text \<open>
  The two hosted APIs are parameters of the model. A call either rejects or resolves.
  \<open>scrape env i url\<close> is the outcome of \<^verbatim>\<open>firecrawl.scrape(url, { formats: ["markdown"] })\<close>
  for the URL at index \<open>i\<close> of the array, so that a URL that occurs twice may be answered
  differently; the resolved document has an optional \<^verbatim>\<open>markdown\<close> field.
  \<open>generateText env p\<close> is the outcome of \<^verbatim>\<open>generateText({ model, prompt: p })\<close>.
  Every function returns the calls it issued, in the order it issued them.
\<close>

datatype error = Rejected

record scrape_result =
  markdown :: "jsstring option"

record providers =
  scrape :: "nat \<Rightarrow> jsstring \<Rightarrow> error + scrape_result"
  generateText :: "jsstring \<Rightarrow> error + jsstring"

datatype call = ScrapeCall jsstring | GenerateCall jsstring

fun generate_prompts :: "call list \<Rightarrow> jsstring list" where
  "generate_prompts [] = []"
| "generate_prompts (ScrapeCall u # cs) = generate_prompts cs"
| "generate_prompts (GenerateCall p # cs) = p # generate_prompts cs"

section \<open>The scrape step\<close>

text \<open>\<^verbatim>\<open>Boolean(s)\<close> on a string: only the empty string is falsy.\<close>

definition Boolean :: "jsstring \<Rightarrow> bool" where
  "Boolean s \<longleftrightarrow> s \<noteq> []"

text \<open>\<^verbatim>\<open>result.markdown || ""\<close>: a missing field and an empty string both give \<^verbatim>\<open>""\<close>.\<close>

definition or_empty :: "jsstring option \<Rightarrow> jsstring" where
  "or_empty m = (case m of None \<Rightarrow> [] | Some t \<Rightarrow> if Boolean t then t else [])"

text \<open>
  \<^verbatim>\<open>Promise.all\<close>: resolves with the values in the order of the array when every promise
  resolves, rejects when one of them rejects.
\<close>

fun Promise_all :: "(error + 'a) list \<Rightarrow> error + 'a list" where
  "Promise_all [] = Inr []"
| "Promise_all (p # ps) =
     (case p of
        Inl e \<Rightarrow> Inl e
      | Inr v \<Rightarrow> (case Promise_all ps of Inl e \<Rightarrow> Inl e | Inr vs \<Rightarrow> Inr (v # vs)))"

text \<open>\<^verbatim>\<open>Array.prototype.join\<close> on an array of strings.\<close>

fun join :: "jsstring \<Rightarrow> jsstring list \<Rightarrow> jsstring" where
  "join sep [] = []"
| "join sep [x] = x"
| "join sep (x # y # ys) = x @ sep @ join sep (y # ys)"

text \<open>
  \<^verbatim>\<open>
  const results = await Promise.all(
    urls.map(async (url) => {
      const result = await firecrawl.scrape(url, { formats: ["markdown"] });
      return result.markdown || "";
    })
  );
  return results.filter(Boolean).join("\n\n");
  \<close>
  \<^verbatim>\<open>map\<close> starts every callback, and each callback calls the provider before it first
  suspends: one call per URL is issued, in the order of the array, whatever the outcomes.
  There is no \<^verbatim>\<open>try\<close> or \<^verbatim>\<open>catch\<close> in the step.
\<close>

definition scrape_one :: "providers \<Rightarrow> nat \<times> jsstring \<Rightarrow> error + jsstring" where
  "scrape_one env = (\<lambda>(i, url).
     case scrape env i url of
       Inl e \<Rightarrow> Inl e
     | Inr result \<Rightarrow> Inr (or_empty (markdown result)))"

definition scrape_urls :: "providers \<Rightarrow> jsstring list \<Rightarrow> call list \<times> (error + jsstring)" where
  "scrape_urls env urls =
     (map ScrapeCall urls,
      case Promise_all (map (scrape_one env) (enumerate 0 urls)) of
        Inl e \<Rightarrow> Inl e
      | Inr results \<Rightarrow> Inr (join [0x0A, 0x0A] (filter Boolean results)))"

section \<open>The final prompt and the whole function\<close>

text \<open>
  \<^verbatim>\<open>
  const finalPrompt = scrapeContent
    ? `Context:\n${scrapeContent}\n\nQuestion:\n${prompt}`
    : prompt;
  \<close>
\<close>

definition finalPrompt :: "jsstring \<Rightarrow> jsstring \<Rightarrow> jsstring" where
  "finalPrompt prompt scrapeContent =
     (if Boolean scrapeContent
      then js ''Context:'' @ [0x0A] @ scrapeContent @ [0x0A, 0x0A] @ js ''Question:'' @ [0x0A] @ prompt
      else prompt)"

text \<open>
  The handler: three awaited steps in sequence. A step that rejects ends the handler
  with that rejection. \<^verbatim>\<open>step.run\<close> hands back what its callback returns (strings and
  arrays of strings survive the JSON encoding of the job runner unchanged).
\<close>

definition demoGenerate :: "providers \<Rightarrow> jsstring \<Rightarrow> call list \<times> (error + unit)" where
  "demoGenerate env prompt =
     (let urls = extract_urls prompt;
          (calls, scraped) = scrape_urls env urls
      in case scraped of
           Inl e \<Rightarrow> (calls, Inl e)
         | Inr scrapeContent \<Rightarrow>
             (calls @ [GenerateCall (finalPrompt prompt scrapeContent)],
              case generateText env (finalPrompt prompt scrapeContent) of
                Inl e \<Rightarrow> Inl e
              | Inr text \<Rightarrow> Inr ()))"

section \<open>The handler as a transition system\<close>

text \<open>
  The same handler, one awaited step at a time. A configuration is the point the handler
  has reached together with the values it holds there, paired with the calls issued so far.
\<close>

datatype config =
    ExtractingURLs jsstring
  | Scraping jsstring "jsstring list"
  | Generating jsstring
  | Done
  | Failed error

datatype stage = Extract | Scrape | Generate | Finished | Aborted

fun stage_of :: "config \<Rightarrow> stage" where
  "stage_of (ExtractingURLs prompt) = Extract"
| "stage_of (Scraping prompt urls) = Scrape"
| "stage_of (Generating final) = Generate"
| "stage_of Done = Finished"
| "stage_of (Failed e) = Aborted"

fun step :: "providers \<Rightarrow> config \<times> call list \<Rightarrow> (config \<times> call list) option" where
  "step env (ExtractingURLs prompt, tr) = Some (Scraping prompt (extract_urls prompt), tr)"
| "step env (Scraping prompt urls, tr) =
     (case scrape_urls env urls of
        (calls, Inl e) \<Rightarrow> Some (Failed e, tr @ calls)
      | (calls, Inr scrapeContent) \<Rightarrow> Some (Generating (finalPrompt prompt scrapeContent), tr @ calls))"
| "step env (Generating final, tr) =
     (case generateText env final of
        Inl e \<Rightarrow> Some (Failed e, tr @ [GenerateCall final])
      | Inr text \<Rightarrow> Some (Done, tr @ [GenerateCall final]))"
| "step env (Done, tr) = None"
| "step env (Failed e, tr) = None"

definition steps_to :: "providers \<Rightarrow> config \<times> call list \<Rightarrow> config \<times> call list \<Rightarrow> bool" where
  "steps_to env x y \<longleftrightarrow> step env x = Some y"

fun rank :: "config \<Rightarrow> nat" where
  "rank (ExtractingURLs prompt) = 0"
| "rank (Scraping prompt urls) = 1"
| "rank (Generating final) = 2"
| "rank Done = 3"
| "rank (Failed e) = 3"

function exec :: "providers \<Rightarrow> config \<times> call list \<Rightarrow> config \<times> call list" where
  "exec env x = (case step env x of None \<Rightarrow> x | Some y \<Rightarrow> exec env y)"
  by pat_completeness auto
termination
proof (relation "measure (\<lambda>(env, x). 3 - rank (fst x))")
  show "wf (measure (\<lambda>(env, x). 3 - rank (fst x)))" by simp
next
  fix env :: providers and x y :: "config \<times> call list"
  assume "step env x = Some y"
  then have "rank (fst x) < rank (fst y) \<and> rank (fst y) \<le> 3"
    by (cases "(env, x)" rule: step.cases) (auto split: prod.splits sum.splits)
  then show "((env, y), (env, x)) \<in> measure (\<lambda>(env, x). 3 - rank (fst x))"
    by simp arith
qed

declare exec.simps [simp del]

section \<open>Vocabulary of the properties\<close>

text \<open>
  \<open>scheme_of s\<close> is the scheme the string starts with, \<open>url_start s\<close> says that a scheme
  is followed by at least one code unit that is not white space, and \<open>url_token s\<close> is
  the scheme with the longest run of such code units after it.
\<close>

definition scheme_of :: "jsstring \<Rightarrow> jsstring option" where
  "scheme_of s =
     (if prefix (js ''http://'') s then Some (js ''http://'')
      else if prefix (js ''https://'') s then Some (js ''https://'')
      else None)"

definition url_start :: "jsstring \<Rightarrow> bool" where
  "url_start s \<longleftrightarrow>
     (case scheme_of s of
        None \<Rightarrow> False
      | Some h \<Rightarrow> (case drop (length h) s of [] \<Rightarrow> False | x # xs \<Rightarrow> \<not> is_space x))"

definition url_token :: "jsstring \<Rightarrow> jsstring" where
  "url_token s =
     (case scheme_of s of
        None \<Rightarrow> []
      | Some h \<Rightarrow> h @ takeWhile (\<lambda>x. \<not> is_space x) (drop (length h) s))"

text \<open>
  A string is URL-shaped when it is a scheme followed by one or more code units, none of
  them white space.
\<close>

definition url_shaped :: "jsstring \<Rightarrow> bool" where
  "url_shaped m \<longleftrightarrow>
     (case scheme_of m of
        None \<Rightarrow> False
      | Some h \<Rightarrow> drop (length h) m \<noteq> [] \<and> list_all (\<lambda>x. \<not> is_space x) (drop (length h) m))"

text \<open>
  The reading of the extraction contract that takes every position of the prompt: the
  URL-shaped substring that starts there and runs to the next white space, for each
  position that has one, in the order of the positions.
\<close>

definition url_substrings :: "jsstring \<Rightarrow> jsstring list" where
  "url_substrings p =
     concat (map (\<lambda>i. if url_start (drop i p) then [url_token (drop i p)] else []) [0..<length p])"

section \<open>The pattern at one position\<close>

lemma backtrack_end: "backtrack (\<lambda>s. Some 0) s n = (if n = 0 then None else Some n)"
  by (cases n) simp_all

lemma match_prefix_Nil: "match_prefix [] = (\<lambda>s. Some 0)"
  by (rule ext) simp

lemma run_empty_iff: "takeWhile (\<lambda>x. \<not> is_space x) r = [] \<longleftrightarrow> r = [] \<or> is_space (hd r)"
  by (cases r) simp_all

lemma match_prefix_plus:
  "match_prefix [PlusNonSpace] r =
     (if r \<noteq> [] \<and> \<not> is_space (hd r) then Some (length (takeWhile (\<lambda>x. \<not> is_space x) r))
      else None)"
  using run_empty_iff [of r] by (auto simp: match_prefix_Nil backtrack_end)

lemma match_prefix_URL:
  "match_prefix URL_REGEX s = (if url_start s then Some (length (url_token s)) else None)"
  unfolding URL_REGEX_def url_start_def url_token_def scheme_of_def js_def
  using match_prefix_plus
  by (auto simp del: match_prefix.simps(2) simp add: match_prefix.simps(2) [where as = "_ # _"]
      split: list.splits option.splits)

lemma scheme_of_split: "scheme_of s = Some h \<Longrightarrow> s = h @ drop (length h) s"
  by (auto simp: scheme_of_def prefix_def split: if_splits)

lemma url_token_prefix: "prefix (url_token s) s"
proof (cases "scheme_of s")
  case None
  then show ?thesis by (simp add: url_token_def)
next
  case (Some h)
  have "prefix (h @ takeWhile (\<lambda>x. \<not> is_space x) (drop (length h) s)) (h @ drop (length h) s)"
    by (simp add: takeWhile_is_prefix)
  with scheme_of_split [OF Some] Some show ?thesis
    by (simp add: url_token_def)
qed

lemma url_start_nonempty: "url_start s \<Longrightarrow> url_token s \<noteq> []"
  by (auto simp: url_start_def url_token_def scheme_of_def js_def split: option.splits if_splits)

lemma url_token_shape:
  assumes "url_start s"
  shows "(prefix (js ''http://'') (url_token s) \<or> prefix (js ''https://'') (url_token s)) \<and>
         (\<forall>c\<in>set (url_token s). \<not> is_space c) \<and> url_shaped (url_token s)"
proof -
  from assms obtain h where h: "scheme_of s = Some h"
    by (auto simp: url_start_def split: option.splits)
  then have hh: "h = js ''http://'' \<or> h = js ''https://''"
    by (auto simp: scheme_of_def split: if_splits)
  have tok: "url_token s = h @ takeWhile (\<lambda>x. \<not> is_space x) (drop (length h) s)"
    by (simp add: url_token_def h)
  have hs: "\<forall>c\<in>set h. \<not> is_space c"
    using hh by (auto simp: js_def is_space_def)
  have run: "\<forall>c\<in>set (takeWhile (\<lambda>x. \<not> is_space x) (drop (length h) s)). \<not> is_space c"
    by (auto dest: set_takeWhileD)
  from assms h have ne: "takeWhile (\<lambda>x. \<not> is_space x) (drop (length h) s) \<noteq> []"
    by (auto simp: url_start_def split: list.splits)
  have sch: "scheme_of (url_token s) = Some h"
    using hh by (auto simp: tok scheme_of_def js_def)
  show ?thesis
    using hh hs run ne sch by (auto simp: tok url_shaped_def list_all_iff)
qed

section \<open>The global match, position by position\<close>

lemma match_all_start:
  assumes "url_start s"
  shows "match_all URL_REGEX s = url_token s # match_all URL_REGEX (drop (length (url_token s)) s)"
proof -
  from assms have ne: "url_token s \<noteq> []" by (rule url_start_nonempty)
  have tk: "take (length (url_token s)) s = url_token s"
    using url_token_prefix [of s] by (metis prefix_def append_eq_conv_conj)
  from ne tk obtain c cs where s: "s = c # cs" by (cases s) auto
  from ne have "drop (length (url_token s) - 1) cs = drop (length (url_token s)) s"
    by (cases "url_token s") (simp_all add: s)
  with assms tk s show ?thesis
    by (subst match_all.simps) (simp add: match_prefix_URL)
qed

lemma match_all_skip:
  assumes "\<not> url_start (c # cs)"
  shows "match_all URL_REGEX (c # cs) = match_all URL_REGEX cs"
  using assms by (subst match_all.simps) (simp add: match_prefix_URL)

lemma match_all_Nil: "match_all URL_REGEX [] = []"
  by (subst match_all.simps) (simp add: match_prefix_URL url_start_def scheme_of_def js_def)

lemma extract_urls_eq: "extract_urls p = match_all URL_REGEX p"
  by (simp add: extract_urls_def String_match_def Let_def)

lemma match_all_drop:
  "i \<le> length p \<Longrightarrow> (\<forall>j<i. \<not> url_start (drop j p)) \<Longrightarrow>
     match_all URL_REGEX p = match_all URL_REGEX (drop i p)"
proof (induction i arbitrary: p)
  case 0
  then show ?case by simp
next
  case (Suc i)
  then obtain c cs where p: "p = c # cs" by (cases p) auto
  from Suc.prems have "\<not> url_start (drop 0 p)" by blast
  then have skip: "match_all URL_REGEX p = match_all URL_REGEX cs"
    by (simp add: p match_all_skip)
  have "\<forall>j<i. \<not> url_start (drop j cs)"
  proof (intro allI impI)
    fix j assume "j < i"
    then have "\<not> url_start (drop (Suc j) p)" using Suc.prems by simp
    then show "\<not> url_start (drop j cs)" by (simp add: p)
  qed
  with Suc.IH [of cs] Suc.prems p have "match_all URL_REGEX cs = match_all URL_REGEX (drop i cs)"
    by simp
  with skip show ?case by (simp add: p)
qed

lemma no_start_code:
  "(\<forall>i<length p. \<not> url_start (drop i p)) \<longleftrightarrow> list_all (\<lambda>i. \<not> url_start (drop i p)) [0..<length p]"
  by (auto simp: list_all_iff)

lemma scheme_of_append: "scheme_of m = Some h \<Longrightarrow> scheme_of (m @ b) = Some h"
  by (auto simp: scheme_of_def prefix_def js_def split: if_splits)

lemma url_shaped_start:
  assumes "url_shaped m" shows "url_start (m @ b)"
proof -
  from assms obtain h where h: "scheme_of m = Some h"
    by (auto simp: url_shaped_def split: option.splits)
  from scheme_of_split [OF h] obtain r where m: "m = h @ r" ..
  with assms h have "r \<noteq> []" "\<not> is_space (hd r)"
    by (auto simp: url_shaped_def list_all_iff)
  with scheme_of_append [OF h, of b] m show ?thesis
    by (cases r) (auto simp: url_start_def)
qed

lemma no_shaped_iff:
  "(\<forall>m. sublist m p \<longrightarrow> \<not> url_shaped m) \<longleftrightarrow> (\<forall>i<length p. \<not> url_start (drop i p))"
proof (intro iffI allI impI notI)
  fix i
  assume no: "\<forall>m. sublist m p \<longrightarrow> \<not> url_shaped m" and "i < length p" and st: "url_start (drop i p)"
  have "prefix (url_token (drop i p)) (drop i p)" by (rule url_token_prefix)
  then have "sublist (url_token (drop i p)) p"
    by (metis prefix_imp_sublist sublist_order.order_trans suffix_drop suffix_imp_sublist)
  with no url_token_shape [OF st] show False by blast
next
  fix m
  assume no: "\<forall>i<length p. \<not> url_start (drop i p)" and sub: "sublist m p" and sh: "url_shaped m"
  from sub obtain a b where p: "p = a @ m @ b" by (auto simp: sublist_def)
  from sh have "m \<noteq> []" by (auto simp: url_shaped_def split: option.splits)
  with p have "length a < length p" by simp
  moreover have "url_start (drop (length a) p)"
    using url_shaped_start [OF sh, of b] by (simp add: p)
  ultimately show False using no by blast
qed

section \<open>The scrape step and the handler\<close>

lemma Promise_all_resolved: "Promise_all (map Inr vs) = Inr vs"
  by (induction vs) simp_all

lemma Promise_all_rejects_iff: "Promise_all ps = Inl Rejected \<longleftrightarrow> Inl Rejected \<in> set ps"
proof (induction ps)
  case Nil
  then show ?case by simp
next
  case (Cons p ps)
  show ?case
  proof (cases p)
    case (Inl e)
    then show ?thesis by (cases e) simp
  next
    case (Inr v)
    with Cons show ?thesis by (auto split: sum.splits)
  qed
qed

lemma join_concat: "join sep (x # xs) = x @ concat (map ((@) sep) xs)"
  by (induction xs arbitrary: x) simp_all

lemma scrape_calls: "fst (scrape_urls env urls) = map ScrapeCall urls"
  by (simp add: scrape_urls_def)

lemma scrape_one_rejects:
  "scrape_one env (i, url) = Inl Rejected \<longleftrightarrow> scrape env i url = Inl Rejected"
  by (cases "scrape env i url") (auto simp: scrape_one_def intro: error.exhaust)

lemma scrape_urls_rejects_iff:
  "snd (scrape_urls env urls) = Inl Rejected \<longleftrightarrow> (\<exists>i<length urls. scrape env i (urls ! i) = Inl Rejected)"
proof -
  have "snd (scrape_urls env urls) = Inl Rejected \<longleftrightarrow>
      Promise_all (map (scrape_one env) (enumerate 0 urls)) = Inl Rejected"
    by (cases "Promise_all (map (scrape_one env) (enumerate 0 urls))")
       (auto simp: scrape_urls_def intro: error.exhaust)
  also have "\<dots> \<longleftrightarrow> (\<exists>i<length urls. scrape_one env (i, urls ! i) = Inl Rejected)"
    unfolding Promise_all_rejects_iff in_set_conv_nth
    by (auto simp: nth_enumerate_eq)
  also have "\<dots> \<longleftrightarrow> (\<exists>i<length urls. scrape env i (urls ! i) = Inl Rejected)"
    by (simp only: scrape_one_rejects)
  finally show ?thesis .
qed

lemma scrape_urls_resolved:
  assumes "length rs = length urls"
    and "\<forall>i<length urls. scrape env i (urls ! i) = Inr (rs ! i)"
  shows "snd (scrape_urls env urls) =
     Inr (join [0x0A, 0x0A] (filter Boolean (map (\<lambda>r. or_empty (markdown r)) rs)))"
proof -
  have "map (scrape_one env) (enumerate 0 urls) = map Inr (map (\<lambda>r. or_empty (markdown r)) rs)"
    using assms by (intro nth_equalityI) (simp_all add: nth_enumerate_eq scrape_one_def)
  then show ?thesis
    by (simp add: scrape_urls_def Promise_all_resolved del: map_map)
qed

lemma demoGenerate_resolved:
  assumes "snd (scrape_urls env (extract_urls prompt)) = Inr ctx"
  shows "fst (demoGenerate env prompt) =
     map ScrapeCall (extract_urls prompt) @ [GenerateCall (finalPrompt prompt ctx)]"
  using assms scrape_calls [of env "extract_urls prompt"]
  by (cases "scrape_urls env (extract_urls prompt)") (simp add: demoGenerate_def)

lemma demoGenerate_rejected:
  assumes "snd (scrape_urls env (extract_urls prompt)) = Inl e"
  shows "demoGenerate env prompt = (map ScrapeCall (extract_urls prompt), Inl e)"
  using assms scrape_calls [of env "extract_urls prompt"]
  by (cases "scrape_urls env (extract_urls prompt)") (simp add: demoGenerate_def)

lemma generate_prompts_scrapes: "generate_prompts (map ScrapeCall urls @ cs) = generate_prompts cs"
  by (induction urls) simp_all

lemma join_survivors:
  "join sep xs = (case xs of [] \<Rightarrow> [] | x # ys \<Rightarrow> x @ concat (map ((@) sep) ys))"
  by (cases xs) (simp_all add: join_concat)

lemma or_empty_cases: "or_empty m = (case m of None \<Rightarrow> [] | Some t \<Rightarrow> t)"
  by (simp add: or_empty_def Boolean_def split: option.splits)

lemma step_Scraping_resolved:
  assumes "snd (scrape_urls env urls) = Inr ctx"
  shows "step env (Scraping prompt urls, tr) =
     Some (Generating (finalPrompt prompt ctx), tr @ map ScrapeCall urls)"
  using assms scrape_calls [of env urls]
  by (cases "scrape_urls env urls") simp

lemma suffix_finalPrompt: "suffix prompt (finalPrompt prompt ctx)"
  by (simp add: finalPrompt_def suffix_def)

lemma join_all_empty: "filter Boolean (map (\<lambda>r. or_empty (markdown r)) rs) = []"
  if "\<forall>r\<in>set rs. markdown r = None \<or> markdown r = Some []"
  using that by (induction rs) (auto simp: or_empty_def Boolean_def)

section \<open>The transition system\<close>

lemma step_rank: "step env x = Some y \<Longrightarrow> rank (fst x) < rank (fst y)"
  by (cases "(env, x)" rule: step.cases) (auto split: prod.splits sum.splits)

lemma reach_rank: "(steps_to env)\<^sup>+\<^sup>+ x y \<Longrightarrow> rank (fst x) < rank (fst y)"
proof (induction rule: tranclp_induct)
  case (base y)
  then show ?case by (simp add: steps_to_def step_rank)
next
  case (step y z)
  from step.hyps(2) have "rank (fst y) < rank (fst z)" by (simp add: steps_to_def step_rank)
  with step.IH show ?case by simp
qed

lemma rank_stage: "rank c < rank c' \<Longrightarrow> stage_of c \<noteq> stage_of c'"
  by (cases c; cases c') simp_all

lemma step_Generating:
  "step env (Generating final, tr) = Some y \<Longrightarrow>
     (fst y = Done \<or> fst y = Failed Rejected) \<and> snd y = tr @ [GenerateCall final]"
  by (cases "generateText env final") (auto intro: error.exhaust)

lemma step_terminal: "fst y = Done \<or> fst y = Failed e \<Longrightarrow> step env y = None"
  by (cases y) auto

lemma reach_Generating:
  "(steps_to env)\<^sup>+\<^sup>+ x y \<Longrightarrow> x = (Generating final, tr) \<Longrightarrow>
     (fst y = Done \<or> fst y = Failed Rejected) \<and> snd y = tr @ [GenerateCall final]"
proof (induction rule: tranclp_induct)
  case (base y)
  then show ?case by (simp add: steps_to_def step_Generating)
next
  case (step y z)
  then have "step env y = None" by (auto intro: step_terminal)
  with step.hyps(2) show ?case by (simp add: steps_to_def)
qed

lemma exec_demoGenerate:
  "exec env (ExtractingURLs prompt, []) =
     (case demoGenerate env prompt of
        (calls, Inl e) \<Rightarrow> (Failed e, calls)
      | (calls, Inr u) \<Rightarrow> (Done, calls))"
  by (cases "scrape_urls env (extract_urls prompt)")
     (auto simp: exec.simps [of env "(ExtractingURLs prompt, [])"]
        exec.simps [of env "(Scraping prompt (extract_urls prompt), [])"]
        exec.simps [of env "(Generating f, t)" for f t]
        exec.simps [of env "(Done, t)" for t]
        exec.simps [of env "(Failed e, t)" for e t]
        demoGenerate_def split: sum.splits)

section \<open>Claims\<close>

text \<open>
  Claim C1 says that a scrape call that throws contributes an empty string and that the
  scrape step and the handler go on. The handler has no \<^verbatim>\<open>catch\<close>: when the second
  of two scrape calls rejects, \<^verbatim>\<open>Promise.all\<close> rejects, the scrape step rejects, and the
  handler ends with that rejection before \<^verbatim>\<open>generateText\<close> is called, although the
  first URL was scraped. (\<open>scrape_urls_rejects_iff\<close> is the general fact.) Only a call
  that resolves without content is turned into an empty string.
\<close>

theorem demoGenerate_scrape_rejection:
  "demoGenerate
     \<lparr>scrape = (\<lambda>i url. if i = 1 then Inl Rejected else Inr \<lparr>markdown = Some (js ''content-A'')\<rparr>),
      generateText = (\<lambda>p. Inr (js ''ok''))\<rparr>
     (js ''See https://a.test and https://b.test now'') =
   ([ScrapeCall (js ''https://a.test''), ScrapeCall (js ''https://b.test'')], Inl Rejected)"
  by code_simp

text \<open>
  Claim C2: for every prompt and every aggregated context, the final prompt is the
  prompt itself when the context is empty and
  \<^verbatim>\<open>Context:\n<context>\n\nQuestion:\n<prompt>\<close> otherwise; and when the scrape step
  resolves with a context, the handler calls \<^verbatim>\<open>generateText\<close> once, with that final
  prompt.
\<close>

theorem final_prompt_composition:
  "finalPrompt prompt ctx =
     (if ctx = [] then prompt
      else js ''Context:\<newline>'' @ ctx @ js ''\<newline>\<newline>Question:\<newline>'' @ prompt) \<and>
   (snd (scrape_urls env (extract_urls prompt)) = Inr ctx \<longrightarrow>
      generate_prompts (fst (demoGenerate env prompt)) = [finalPrompt prompt ctx])"
  by (simp add: demoGenerate_resolved generate_prompts_scrapes finalPrompt_def Boolean_def js_def)

theorem final_prompt_composition_witness:
  "snd (scrape_urls
     \<lparr>scrape = (\<lambda>i url. Inr \<lparr>markdown = Some (js ''X'')\<rparr>), generateText = (\<lambda>p. Inr [])\<rparr>
     (extract_urls (js ''Q https://a.test''))) = Inr (js ''X'') \<and>
   generate_prompts (fst (demoGenerate
     \<lparr>scrape = (\<lambda>i url. Inr \<lparr>markdown = Some (js ''X'')\<rparr>), generateText = (\<lambda>p. Inr [])\<rparr>
     (js ''Q https://a.test''))) =
     [js ''Context:\<newline>X\<newline>\<newline>Question:\<newline>Q https://a.test'']"
proof -
  let ?env =
    "\<lparr>scrape = (\<lambda>i url. Inr \<lparr>markdown = Some (js ''X'')\<rparr>), generateText = (\<lambda>p. Inr [])\<rparr>"
  have h: "snd (scrape_urls ?env (extract_urls (js ''Q https://a.test''))) = Inr (js ''X'')"
    by code_simp
  have "finalPrompt (js ''Q https://a.test'') (js ''X'') =
      js ''Context:\<newline>X\<newline>\<newline>Question:\<newline>Q https://a.test''"
    by code_simp
  with h final_prompt_composition [of "js ''Q https://a.test''" "js ''X''" ?env]
  show ?thesis by simp
qed

text \<open>
  Claim C3: when every scrape call resolves, the scrape step resolves with the results
  that are not empty (a missing \<^verbatim>\<open>markdown\<close> field counts as empty), in the order of
  their URLs, with \<^verbatim>\<open>\n\n\<close> between two consecutive ones and nothing before the first
  or after the last. For the two results \<^verbatim>\<open>content-A\<close> and the empty string the
  context is exactly \<^verbatim>\<open>content-A\<close>.
\<close>

theorem scrape_urls_aggregation:
  "(length rs = length urls \<and> (\<forall>i<length urls. scrape env i (urls ! i) = Inr (rs ! i)) \<longrightarrow>
      snd (scrape_urls env urls) =
        Inr (case filter (\<lambda>s. s \<noteq> []) (map (\<lambda>r. case markdown r of None \<Rightarrow> [] | Some t \<Rightarrow> t) rs) of
               [] \<Rightarrow> []
             | x # xs \<Rightarrow> x @ concat (map (\<lambda>y. js ''\<newline>\<newline>'' @ y) xs))) \<and>
   (scrape env 0 a = Inr \<lparr>markdown = Some (js ''content-A'')\<rparr> \<and>
    (scrape env 1 b = Inr \<lparr>markdown = Some []\<rparr> \<or> scrape env 1 b = Inr \<lparr>markdown = None\<rparr>) \<longrightarrow>
      snd (scrape_urls env [a, b]) = Inr (js ''content-A''))"
proof (intro conjI impI)
  assume "length rs = length urls \<and> (\<forall>i<length urls. scrape env i (urls ! i) = Inr (rs ! i))"
  then have a: "snd (scrape_urls env urls) =
      Inr (join [0x0A, 0x0A] (filter Boolean (map (\<lambda>r. or_empty (markdown r)) rs)))"
    by (simp add: scrape_urls_resolved)
  have b: "filter Boolean (map (\<lambda>r. or_empty (markdown r)) rs) =
      filter (\<lambda>s. s \<noteq> []) (map (\<lambda>r. case markdown r of None \<Rightarrow> [] | Some t \<Rightarrow> t) rs)"
    by (simp add: or_empty_cases Boolean_def [abs_def])
  have c: "js ''\<newline>\<newline>'' = [0x0A, 0x0A]" by (simp add: js_def)
  show "snd (scrape_urls env urls) =
        Inr (case filter (\<lambda>s. s \<noteq> []) (map (\<lambda>r. case markdown r of None \<Rightarrow> [] | Some t \<Rightarrow> t) rs) of
               [] \<Rightarrow> []
             | x # xs \<Rightarrow> x @ concat (map (\<lambda>y. js ''\<newline>\<newline>'' @ y) xs))"
    unfolding a b c by (simp add: join_survivors)
next
  assume "scrape env 0 a = Inr \<lparr>markdown = Some (js ''content-A'')\<rparr> \<and>
    (scrape env 1 b = Inr \<lparr>markdown = Some []\<rparr> \<or> scrape env 1 b = Inr \<lparr>markdown = None\<rparr>)"
  then show "snd (scrape_urls env [a, b]) = Inr (js ''content-A'')"
    by (auto simp: scrape_urls_def scrape_one_def or_empty_def Boolean_def js_def)
qed

theorem scrape_urls_aggregation_witness:
  "snd (scrape_urls
     \<lparr>scrape = (\<lambda>i url. if i = 1 then Inr \<lparr>markdown = None\<rparr> else Inr \<lparr>markdown = Some url\<rparr>),
      generateText = (\<lambda>p. Inl Rejected)\<rparr>
     [js ''A'', js ''B'', js ''C'']) = Inr (js ''A\<newline>\<newline>C'') \<and>
   snd (scrape_urls
     \<lparr>scrape = (\<lambda>i url. if i = 0 then Inr \<lparr>markdown = Some (js ''content-A'')\<rparr>
                       else Inr \<lparr>markdown = Some []\<rparr>),
      generateText = (\<lambda>p. Inl Rejected)\<rparr>
     [js ''https://a.test'', js ''https://b.test'']) = Inr (js ''content-A'')"
proof -
  let ?e1 = "\<lparr>scrape = (\<lambda>i url. if i = 1 then Inr \<lparr>markdown = None\<rparr> else Inr \<lparr>markdown = Some url\<rparr>),
      generateText = (\<lambda>p. Inl Rejected)\<rparr>"
  let ?e2 = "\<lparr>scrape = (\<lambda>i url. if i = 0 then Inr \<lparr>markdown = Some (js ''content-A'')\<rparr>
                       else Inr \<lparr>markdown = Some []\<rparr>),
      generateText = (\<lambda>p. Inl Rejected)\<rparr>"
  let ?urls = "[js ''A'', js ''B'', js ''C'']"
  let ?rs = "[\<lparr>markdown = Some (js ''A'')\<rparr>, \<lparr>markdown = None\<rparr>, \<lparr>markdown = Some (js ''C'')\<rparr>]"
  have "\<forall>i<length ?urls. scrape ?e1 i (?urls ! i) = Inr (?rs ! i)"
    by (simp add: less_Suc_eq nth_Cons')
  then have h1: "length ?rs = length ?urls \<and>
      (\<forall>i<length ?urls. scrape ?e1 i (?urls ! i) = Inr (?rs ! i))"
    by simp
  have h2: "scrape ?e2 0 (js ''https://a.test'') = Inr \<lparr>markdown = Some (js ''content-A'')\<rparr> \<and>
        (scrape ?e2 1 (js ''https://b.test'') = Inr \<lparr>markdown = Some []\<rparr> \<or>
         scrape ?e2 1 (js ''https://b.test'') = Inr \<lparr>markdown = None\<rparr>)"
    by simp
  from scrape_urls_aggregation [of ?rs ?urls ?e1] h1
  have "snd (scrape_urls ?e1 ?urls) = Inr (js ''A\<newline>\<newline>C'')"
    by (simp add: js_def)
  moreover from scrape_urls_aggregation [of "[]" "[]" ?e2 "js ''https://a.test''" "js ''https://b.test''"] h2
  have "snd (scrape_urls ?e2 [js ''https://a.test'', js ''https://b.test'']) = Inr (js ''content-A'')"
    by blast
  ultimately show ?thesis by blast
qed

text \<open>
  Claim C4, as amended: URL extraction scans the prompt from left to right. When no
  position of the prompt starts with \<^verbatim>\<open>http://\<close> or \<^verbatim>\<open>https://\<close> followed by at least
  one character that is not white space, the result is empty. Otherwise the first element
  starts at the first such position and runs over the longest run of characters that are
  not white space, and the remaining elements are the extraction of the text after it.
  So the elements come in encounter order, do not overlap, and repeat when the prompt
  repeats a URL; no input raises an error.
\<close>

theorem extract_urls_leftmost_scan:
  "((\<forall>i<length p. \<not> url_start (drop i p)) \<longrightarrow> extract_urls p = []) \<and>
   (\<forall>i<length p. url_start (drop i p) \<and> (\<forall>j<i. \<not> url_start (drop j p)) \<longrightarrow>
      extract_urls p =
        url_token (drop i p) # extract_urls (drop (i + length (url_token (drop i p))) p))"
proof (intro conjI impI allI)
  assume "\<forall>i<length p. \<not> url_start (drop i p)"
  with match_all_drop [of "length p" p] show "extract_urls p = []"
    by (simp add: extract_urls_eq match_all_Nil)
next
  fix i
  assume i: "i < length p"
    and "url_start (drop i p) \<and> (\<forall>j<i. \<not> url_start (drop j p))"
  then have st: "url_start (drop i p)" and no: "\<forall>j<i. \<not> url_start (drop j p)"
    by blast+
  from i no have "match_all URL_REGEX p = match_all URL_REGEX (drop i p)"
    by (simp add: match_all_drop)
  also from st have "\<dots> = url_token (drop i p) #
      match_all URL_REGEX (drop (length (url_token (drop i p))) (drop i p))"
    by (rule match_all_start)
  finally show "extract_urls p =
      url_token (drop i p) # extract_urls (drop (i + length (url_token (drop i p))) p)"
    by (simp add: extract_urls_eq add.commute)
qed

theorem extract_urls_leftmost_scan_witness:
  "list_all (\<lambda>i. \<not> url_start (drop i (js ''no url''))) [0..<length (js ''no url'')] \<and>
   extract_urls (js ''no url'') = [] \<and>
   4 < length (js ''See https://a.test and https://b.test now'') \<and>
   url_start (drop 4 (js ''See https://a.test and https://b.test now'')) \<and>
   list_all (\<lambda>j. \<not> url_start (drop j (js ''See https://a.test and https://b.test now''))) [0..<4] \<and>
   extract_urls (js ''See https://a.test and https://b.test now'') =
     js ''https://a.test'' # extract_urls (js '' and https://b.test now'')"
proof -
  let ?p = "js ''See https://a.test and https://b.test now''"
  have c1: "list_all (\<lambda>i. \<not> url_start (drop i (js ''no url''))) [0..<length (js ''no url'')]"
    by code_simp
  then have h1: "\<forall>i<length (js ''no url''). \<not> url_start (drop i (js ''no url''))"
    by (simp only: no_start_code)
  have h2: "4 < length ?p" by (simp add: js_def)
  have h3: "url_start (drop 4 ?p)" by code_simp
  have c4: "list_all (\<lambda>j. \<not> url_start (drop j ?p)) [0..<4]" by code_simp
  then have h4: "\<forall>j<4. \<not> url_start (drop j ?p)" by (auto simp: list_all_iff)
  have tok: "url_token (drop 4 ?p) = js ''https://a.test''" by code_simp
  have rest: "drop (4 + length (js ''https://a.test'')) ?p = js '' and https://b.test now''"
    by (simp add: js_def)
  from extract_urls_leftmost_scan [of ?p] h2 h3 h4
  have "extract_urls ?p =
      url_token (drop 4 ?p) # extract_urls (drop (4 + length (url_token (drop 4 ?p))) ?p)"
    by blast
  with tok rest
  have "extract_urls ?p = js ''https://a.test'' # extract_urls (js '' and https://b.test now'')"
    by simp
  moreover from extract_urls_leftmost_scan [of "js ''no url''"] h1
  have "extract_urls (js ''no url'') = []" by blast
  ultimately show ?thesis using c1 h2 h3 c4 by blast
qed

text \<open>
  Claim C4 as it is written, with all substrings that start with a scheme and run to the
  next white space, fails where one URL-shaped substring lies inside another: in
  \<^verbatim>\<open>http://ahttp://b\<close> the substring \<^verbatim>\<open>http://b\<close> starts with \<^verbatim>\<open>http://\<close> and runs to
  the end, and the global match returns only \<^verbatim>\<open>http://ahttp://b\<close>, because the search
  goes on after the end of each match.
\<close>

theorem extract_urls_not_all_substrings:
  "extract_urls (js ''http://ahttp://b'') \<noteq> url_substrings (js ''http://ahttp://b'')"
  by code_simp

text \<open>
  Claim C5: when the prompt has no URL-shaped substring, URL extraction returns the empty
  sequence, and the scrape step on it issues no call and resolves with the empty context.
\<close>

theorem no_urls_no_scrape:
  assumes "\<forall>m. sublist m p \<longrightarrow> \<not> url_shaped m"
  shows "extract_urls p = [] \<and> scrape_urls env (extract_urls p) = ([], Inr [])"
proof -
  from assms have "\<forall>i<length p. \<not> url_start (drop i p)" by (simp only: no_shaped_iff)
  with match_all_drop [of "length p" p] have "extract_urls p = []"
    by (simp add: extract_urls_eq match_all_Nil)
  then show ?thesis by (simp add: scrape_urls_def)
qed

theorem no_urls_no_scrape_witness:
  "\<not> (\<exists>m. sublist m (js ''Summarize this'') \<and> url_shaped m) \<and>
   extract_urls (js ''Summarize this'') = [] \<and>
   scrape_urls \<lparr>scrape = (\<lambda>i url. Inl Rejected), generateText = (\<lambda>p. Inl Rejected)\<rparr>
     (extract_urls (js ''Summarize this'')) = ([], Inr [])"
proof -
  have "list_all (\<lambda>i. \<not> url_start (drop i (js ''Summarize this'')))
          [0..<length (js ''Summarize this'')]"
    by code_simp
  then have h: "\<forall>m. sublist m (js ''Summarize this'') \<longrightarrow> \<not> url_shaped m"
    by (simp only: no_shaped_iff no_start_code)
  from h no_urls_no_scrape [OF h] show ?thesis by blast
qed

text \<open>
  Claim C6: the prompt \<^verbatim>\<open>See https://a.test and https://b.test now\<close> yields exactly
  \<^verbatim>\<open>https://a.test\<close> and \<^verbatim>\<open>https://b.test\<close>, in that order.
\<close>

theorem extract_urls_two_urls:
  "extract_urls (js ''See https://a.test and https://b.test now'') =
     [js ''https://a.test'', js ''https://b.test'']"
  by code_simp

text \<open>
  Claim C7: the final prompt depends on the prompt and the aggregated context only. Take
  two runs that reach the composition with the same prompt and the same context, whatever
  their providers, their URL lists and the calls made before: both go on to generate
  with the same final prompt.
\<close>

theorem final_prompt_deterministic:
  assumes "snd (scrape_urls env1 urls1) = Inr ctx" and "snd (scrape_urls env2 urls2) = Inr ctx"
    and "step env1 (Scraping prompt urls1, tr1) = Some (c1, tr1')"
    and "step env2 (Scraping prompt urls2, tr2) = Some (c2, tr2')"
  shows "c1 = c2 \<and> c1 = Generating (finalPrompt prompt ctx)"
  using assms(3,4)
  unfolding step_Scraping_resolved [OF assms(1)] step_Scraping_resolved [OF assms(2)]
  by simp

theorem final_prompt_deterministic_witness:
  "step \<lparr>scrape = (\<lambda>i url. Inr \<lparr>markdown = Some (js ''X'')\<rparr>), generateText = (\<lambda>p. Inr p)\<rparr>
     (Scraping (js ''Q'') [js ''https://a.test''], []) =
   Some (Generating (js ''Context:\<newline>X\<newline>\<newline>Question:\<newline>Q''), [ScrapeCall (js ''https://a.test'')]) \<and>
   step \<lparr>scrape = (\<lambda>i url. if i = 0 then Inr \<lparr>markdown = None\<rparr> else Inr \<lparr>markdown = Some (js ''X'')\<rparr>),
         generateText = (\<lambda>p. Inl Rejected)\<rparr>
     (Scraping (js ''Q'') [js ''http://b.test'', js ''http://c.test''], [GenerateCall (js ''earlier'')]) =
   Some (Generating (js ''Context:\<newline>X\<newline>\<newline>Question:\<newline>Q''),
         [GenerateCall (js ''earlier''), ScrapeCall (js ''http://b.test''), ScrapeCall (js ''http://c.test'')])"
proof -
  let ?e1 = "\<lparr>scrape = (\<lambda>i url. Inr \<lparr>markdown = Some (js ''X'')\<rparr>), generateText = (\<lambda>p. Inr p)\<rparr>"
  let ?e2 = "\<lparr>scrape = (\<lambda>i url. if i = 0 then Inr \<lparr>markdown = None\<rparr> else Inr \<lparr>markdown = Some (js ''X'')\<rparr>),
         generateText = (\<lambda>p. Inl Rejected)\<rparr>"
  let ?u1 = "[js ''https://a.test'']"
  let ?u2 = "[js ''http://b.test'', js ''http://c.test'']"
  have a1: "snd (scrape_urls ?e1 ?u1) = Inr (js ''X'')" by code_simp
  have a2: "snd (scrape_urls ?e2 ?u2) = Inr (js ''X'')" by code_simp
  note r1 = step_Scraping_resolved [OF a1, of "js ''Q''" "[]"]
  note r2 = step_Scraping_resolved [OF a2, of "js ''Q''" "[GenerateCall (js ''earlier'')]"]
  obtain c1 t1 where s1: "step ?e1 (Scraping (js ''Q'') ?u1, []) = Some (c1, t1)"
    unfolding r1 by blast
  obtain c2 t2 where s2: "step ?e2 (Scraping (js ''Q'') ?u2, [GenerateCall (js ''earlier'')]) = Some (c2, t2)"
    unfolding r2 by blast
  have fp: "finalPrompt (js ''Q'') (js ''X'') = js ''Context:\<newline>X\<newline>\<newline>Question:\<newline>Q''"
    by code_simp
  from final_prompt_deterministic [OF a1 a2 s1 s2] have "c1 = c2" and "c1 = Generating (finalPrompt (js ''Q'') (js ''X''))"
    by blast+
  moreover have "t1 = [ScrapeCall (js ''https://a.test'')]"
    using s1 unfolding r1 by simp
  moreover have "t2 = [GenerateCall (js ''earlier''), ScrapeCall (js ''http://b.test''), ScrapeCall (js ''http://c.test'')]"
    using s2 unfolding r2 by simp
  ultimately show ?thesis using s1 s2 fp by simp
qed

text \<open>
  Claim C8: from the generating state the handler moves only to the end or to failure,
  and the only call it adds is the one generation call; whatever is reached from the
  generating state is neither extraction nor scraping nor generating again, and no scrape
  call is issued; a failed or finished handler moves no further; and no run of the
  handler comes back to a stage it has left.
\<close>

theorem generating_never_goes_back:
  "(steps_to env (Generating final, tr) y \<longrightarrow>
      (fst y = Done \<or> fst y = Failed Rejected) \<and> snd y = tr @ [GenerateCall final]) \<and>
   ((steps_to env)\<^sup>+\<^sup>+ (Generating final, tr) z \<longrightarrow>
      stage_of (fst z) \<noteq> Extract \<and> stage_of (fst z) \<noteq> Scrape \<and> stage_of (fst z) \<noteq> Generate \<and>
      snd z = tr @ [GenerateCall final]) \<and>
   \<not> steps_to env (Failed e, tr) y \<and> \<not> steps_to env (Done, tr) y \<and>
   ((steps_to env)\<^sup>+\<^sup>+ x z \<longrightarrow> stage_of (fst z) \<noteq> stage_of (fst x))"
proof -
  have a: "(fst y = Done \<or> fst y = Failed Rejected) \<and> snd y = tr @ [GenerateCall final]"
    if "steps_to env (Generating final, tr) y"
    using that by (simp add: steps_to_def step_Generating)
  have b: "stage_of (fst z) \<noteq> Extract \<and> stage_of (fst z) \<noteq> Scrape \<and>
      stage_of (fst z) \<noteq> Generate \<and> snd z = tr @ [GenerateCall final]"
    if r: "(steps_to env)\<^sup>+\<^sup>+ (Generating final, tr) z"
    using reach_Generating [OF r refl] by auto
  have c: "\<not> steps_to env (Failed e, tr) y" "\<not> steps_to env (Done, tr) y"
    by (simp_all add: steps_to_def)
  have d: "stage_of (fst z) \<noteq> stage_of (fst x)" if "(steps_to env)\<^sup>+\<^sup>+ x z"
    using reach_rank [OF that] by (auto dest: rank_stage)
  from a b c d show ?thesis by blast
qed

theorem generating_never_goes_back_witness:
  "steps_to \<lparr>scrape = (\<lambda>i url. Inl Rejected), generateText = (\<lambda>p. Inl Rejected)\<rparr>
     (Generating (js ''Q''), []) (Failed Rejected, [GenerateCall (js ''Q'')]) \<and>
   (steps_to \<lparr>scrape = (\<lambda>i url. Inl Rejected), generateText = (\<lambda>p. Inl Rejected)\<rparr>)\<^sup>+\<^sup>+
     (ExtractingURLs (js ''Q''), []) (Failed Rejected, [GenerateCall (js ''Q'')]) \<and>
   stage_of (Failed Rejected) \<noteq> stage_of (ExtractingURLs (js ''Q'')) \<and>
   stage_of (Failed Rejected) \<noteq> Extract \<and> stage_of (Failed Rejected) \<noteq> Scrape \<and>
   stage_of (Failed Rejected) \<noteq> Generate"
proof -
  let ?env = "\<lparr>scrape = (\<lambda>i url. Inl Rejected), generateText = (\<lambda>p. Inl Rejected)\<rparr>"
  let ?y = "(Failed Rejected, [GenerateCall (js ''Q'')])"
  have ex: "extract_urls (js ''Q'') = []" by code_simp
  have s1: "steps_to ?env (ExtractingURLs (js ''Q''), []) (Scraping (js ''Q'') [], [])"
    by (simp add: steps_to_def ex)
  have s2: "steps_to ?env (Scraping (js ''Q'') [], []) (Generating (js ''Q''), [])"
    by (simp add: steps_to_def scrape_urls_def finalPrompt_def Boolean_def)
  have s3: "steps_to ?env (Generating (js ''Q''), []) ?y"
    by (simp add: steps_to_def)
  from s3 have r3: "(steps_to ?env)\<^sup>+\<^sup>+ (Generating (js ''Q''), []) ?y" ..
  from s1 s2 s3 have r1: "(steps_to ?env)\<^sup>+\<^sup>+ (ExtractingURLs (js ''Q''), []) ?y"
    by (meson tranclp.r_into_trancl tranclp_into_tranclp2)
  from generating_never_goes_back [of ?env "js ''Q''" "[]" ?y ?y Rejected "(ExtractingURLs (js ''Q''), [])"] s3 r3 r1
  show ?thesis by simp
qed

text \<open>
  Claim C9: every element that URL extraction returns starts with \<^verbatim>\<open>http://\<close> or
  \<^verbatim>\<open>https://\<close>, contains no white space and is a substring of the prompt.
\<close>

theorem extract_urls_elements:
  "\<forall>u\<in>set (extract_urls p).
     (prefix (js ''http://'') u \<or> prefix (js ''https://'') u) \<and>
     (\<forall>c\<in>set u. \<not> is_space c) \<and> sublist u p"
proof -
  have "\<forall>u\<in>set (match_all URL_REGEX p).
     (prefix (js ''http://'') u \<or> prefix (js ''https://'') u) \<and>
     (\<forall>c\<in>set u. \<not> is_space c) \<and> sublist u p"
  proof (induction p rule: length_induct)
    case (1 p)
    show ?case
    proof (cases "url_start p")
      case True
      let ?t = "url_token p"
      let ?rest = "drop (length ?t) p"
      from True have ne: "?t \<noteq> []" by (rule url_start_nonempty)
      have pre: "prefix ?t p" by (rule url_token_prefix)
      then have "length ?t \<le> length p" by (rule prefix_length_le)
      with ne have "length ?rest < length p" by (cases p) auto
      with 1 [THEN spec, of ?rest] have IH: "\<forall>u\<in>set (match_all URL_REGEX ?rest).
          (prefix (js ''http://'') u \<or> prefix (js ''https://'') u) \<and>
          (\<forall>c\<in>set u. \<not> is_space c) \<and> sublist u ?rest" by blast
      have "sublist u p" if "sublist u ?rest" for u
        using that by (metis append_take_drop_id sublist_order.order_trans suffix_imp_sublist suffixI)
      with IH url_token_shape [OF True] pre show ?thesis
        by (auto simp: match_all_start [OF True])
    next
      case False
      show ?thesis
      proof (cases p)
        case Nil
        then show ?thesis by (simp add: match_all_Nil)
      next
        case (Cons c cs)
        with 1 [THEN spec, of cs] have "\<forall>u\<in>set (match_all URL_REGEX cs).
          (prefix (js ''http://'') u \<or> prefix (js ''https://'') u) \<and>
          (\<forall>c\<in>set u. \<not> is_space c) \<and> sublist u cs" by simp
        with False Cons show ?thesis
          by (auto simp: match_all_skip sublist_Cons_right)
      qed
    qed
  qed
  then show ?thesis by (simp add: extract_urls_eq)
qed

theorem extract_urls_elements_witness:
  "js ''https://a.test'' \<in> set (extract_urls (js ''See https://a.test now'')) \<and>
   (prefix (js ''http://'') (js ''https://a.test'') \<or>
    prefix (js ''https://'') (js ''https://a.test'')) \<and>
   list_all (\<lambda>c. \<not> is_space c) (js ''https://a.test'') \<and>
   sublist (js ''https://a.test'') (js ''See https://a.test now'')"
proof -
  have "extract_urls (js ''See https://a.test now'') = [js ''https://a.test'']" by code_simp
  then have h: "js ''https://a.test'' \<in> set (extract_urls (js ''See https://a.test now''))"
    by simp
  from h extract_urls_elements [of "js ''See https://a.test now''"] show ?thesis
    unfolding list_all_iff by blast
qed

text \<open>
  Claim C10: the original prompt is a suffix of every prompt the handler passes to the
  generation call, whatever the scrape calls answer; when the scrape step resolves there
  is exactly one generation call; and when every scrape call resolves with a missing or
  empty \<^verbatim>\<open>markdown\<close>, the prompt passed is the original prompt itself.
\<close>

theorem prompt_suffix_of_final:
  "(\<forall>f\<in>set (generate_prompts (fst (demoGenerate env prompt))). suffix prompt f) \<and>
   ((\<exists>ctx. snd (scrape_urls env (extract_urls prompt)) = Inr ctx) \<longrightarrow>
      length (generate_prompts (fst (demoGenerate env prompt))) = 1) \<and>
   ((\<forall>i<length (extract_urls prompt). \<exists>r.
        scrape env i (extract_urls prompt ! i) = Inr r \<and> (markdown r = None \<or> markdown r = Some [])) \<longrightarrow>
      generate_prompts (fst (demoGenerate env prompt)) = [prompt])"
proof -
  let ?urls = "extract_urls prompt"
  have a: "\<forall>f\<in>set (generate_prompts (fst (demoGenerate env prompt))). suffix prompt f"
  proof (cases "snd (scrape_urls env ?urls)")
    case (Inl e)
    from generate_prompts_scrapes [of ?urls "[]"] show ?thesis
      by (simp add: demoGenerate_rejected [OF Inl])
  next
    case (Inr ctx)
    then show ?thesis
      by (simp add: demoGenerate_resolved generate_prompts_scrapes suffix_finalPrompt)
  qed
  have b: "length (generate_prompts (fst (demoGenerate env prompt))) = 1"
    if "\<exists>ctx. snd (scrape_urls env ?urls) = Inr ctx"
    using that by (auto simp: demoGenerate_resolved generate_prompts_scrapes)
  have c: "generate_prompts (fst (demoGenerate env prompt)) = [prompt]"
    if h: "\<forall>i<length ?urls. \<exists>r.
        scrape env i (?urls ! i) = Inr r \<and> (markdown r = None \<or> markdown r = Some [])"
  proof -
    from h obtain f where f: "\<forall>i<length ?urls.
        scrape env i (?urls ! i) = Inr (f i) \<and> (markdown (f i) = None \<or> markdown (f i) = Some [])"
      by metis
    define rs where "rs = map f [0..<length ?urls]"
    have len: "length rs = length ?urls" by (simp add: rs_def)
    have res: "\<forall>i<length ?urls. scrape env i (?urls ! i) = Inr (rs ! i)"
      using f by (simp add: rs_def)
    have emp: "\<forall>r\<in>set rs. markdown r = None \<or> markdown r = Some []"
      using f by (auto simp: rs_def)
    from scrape_urls_resolved [OF len res] join_all_empty [OF emp]
    have "snd (scrape_urls env ?urls) = Inr []" by simp
    then show ?thesis
      by (simp add: demoGenerate_resolved generate_prompts_scrapes finalPrompt_def Boolean_def)
  qed
  from a b c show ?thesis by blast
qed

theorem prompt_suffix_of_final_witness:
  "generate_prompts (fst (demoGenerate
      \<lparr>scrape = (\<lambda>i url. if i = 0 then Inr \<lparr>markdown = None\<rparr> else Inr \<lparr>markdown = Some []\<rparr>),
       generateText = (\<lambda>p. Inr p)\<rparr>
      (js ''Compare https://a.test and https://b.test''))) =
     [js ''Compare https://a.test and https://b.test''] \<and>
   generate_prompts (fst (demoGenerate
      \<lparr>scrape = (\<lambda>i url. Inr \<lparr>markdown = Some (js ''X'')\<rparr>), generateText = (\<lambda>p. Inr p)\<rparr>
      (js ''Q https://a.test''))) =
     [js ''Context:\<newline>X\<newline>\<newline>Question:\<newline>Q https://a.test''] \<and>
   suffix (js ''Q https://a.test'') (js ''Context:\<newline>X\<newline>\<newline>Question:\<newline>Q https://a.test'')"
proof -
  let ?e1 = "\<lparr>scrape = (\<lambda>i url. if i = 0 then Inr \<lparr>markdown = None\<rparr> else Inr \<lparr>markdown = Some []\<rparr>),
       generateText = (\<lambda>p. Inr p)\<rparr>"
  let ?p1 = "js ''Compare https://a.test and https://b.test''"
  let ?e2 = "\<lparr>scrape = (\<lambda>i url. Inr \<lparr>markdown = Some (js ''X'')\<rparr>), generateText = (\<lambda>p. Inr p)\<rparr>"
  let ?p2 = "js ''Q https://a.test''"
  have "\<forall>i<length (extract_urls ?p1). \<exists>r.
        scrape ?e1 i (extract_urls ?p1 ! i) = Inr r \<and> (markdown r = None \<or> markdown r = Some [])"
    by simp
  with prompt_suffix_of_final [of ?e1 ?p1]
  have one: "generate_prompts (fst (demoGenerate ?e1 ?p1)) = [?p1]" by blast
  have two: "generate_prompts (fst (demoGenerate ?e2 ?p2)) =
      [js ''Context:\<newline>X\<newline>\<newline>Question:\<newline>Q https://a.test'']"
    by code_simp
  with prompt_suffix_of_final [of ?e2 ?p2]
  have "suffix ?p2 (js ''Context:\<newline>X\<newline>\<newline>Question:\<newline>Q https://a.test'')"
    by simp
  with one two show ?thesis by blast
qed

end
